theory Spec2Isabelle
  imports Main "HOL-Library.AList"
begin

section \<open>The store of mini-jotai, embedded\<close>

text \<open>
  The development follows \<^verbatim>\<open>src/mini-jotai/store.ts\<close> (the store created by
  \<^verbatim>\<open>createStore\<close>) and the cell factory \<^verbatim>\<open>atom\<close> of \<^verbatim>\<open>atom.ts\<close>.

  \<^item> A cell (atom) is a JavaScript object compared by reference; it is modelled by a
    reference number, and the immutable definition behind the reference (its read
    function, its optional \<^verbatim>\<open>init\<close> and \<^verbatim>\<open>write\<close>) is looked up in an
    environment. The field \<^verbatim>\<open>debugLabel\<close> is used by no store function and is left out.
  \<^item> Values are type-erased (\<^verbatim>\<open>unknown\<close>) in the store. The model has
    \<^verbatim>\<open>undefined\<close>, integer-valued numbers other than \<^verbatim>\<open>-0\<close>, and objects and
    functions by reference, so that HOL equality on values is \<^verbatim>\<open>Object.is\<close>.
  \<^item> A read function \<^verbatim>\<open>(get) => value\<close> is required to be pure: all it can do
    is to call the getter it is handed and to return. It is modelled by the tree of its
    calls. A write function \<^verbatim>\<open>(get, set, ...args) => result\<close> is modelled likewise.
    Neither catches an exception of the getter or setter.
  \<^item> A listener is a callback compared by reference. The model records its invocation
    in a trace and lets it re-enter the store through \<^verbatim>\<open>get\<close> and \<^verbatim>\<open>set\<close>;
    listeners that subscribe or unsubscribe while they run are not modelled.
  \<^item> The recursion of the store is not bounded by the source (a cyclic dependency
    recurses forever), so every recursive store function takes a bound on the depth of
    nested calls and yields \<open>Timeout\<close> when the bound is used up.
\<close>

subsection \<open>Values, results\<close>

type_synonym atom = nat
type_synonym listener = nat

datatype val = Undefined | Num int | Obj nat | Fn nat

datatype error =
    NoAtomInit      \<comment> \<open>\<^verbatim>\<open>throw new Error("no atom init")\<close>\<close>
  | NotAFunction    \<comment> \<open>the TypeError of calling a \<^verbatim>\<open>write\<close> that is not there\<close>

datatype 'a result = Timeout | Throw error | Ok 'a

fun bind :: "'a result \<Rightarrow> ('a \<Rightarrow> 'b result) \<Rightarrow> 'b result" where
  "bind Timeout f = Timeout"
| "bind (Throw e) f = Throw e"
| "bind (Ok x) f = f x"

text \<open>\<^verbatim>\<open>xs.forEach(f)\<close> over a snapshot \<open>xs\<close>, with the store threaded through.\<close>

fun forEach :: "'a list \<Rightarrow> ('a \<Rightarrow> 's \<Rightarrow> 's result) \<Rightarrow> 's \<Rightarrow> 's result" where
  "forEach [] f s = Ok s"
| "forEach (x # xs) f s = bind (f x s) (forEach xs f)"

subsection \<open>Cell definitions (atom.ts)\<close>

datatype rprog = Return val | Get atom "val \<Rightarrow> rprog"

datatype wprog =
    WReturn val
  | WGet atom "val \<Rightarrow> wprog"
  | WSet atom "val list" "val \<Rightarrow> wprog"

record atom_def =
  read :: rprog
  init :: "val option"                        \<comment> \<open>\<open>None\<close>: no \<^verbatim>\<open>init\<close> key\<close>
  write_fn :: "(val list \<Rightarrow> wprog) option"    \<comment> \<open>\<^verbatim>\<open>write\<close>\<close>

text \<open>\<^verbatim>\<open>args[0]\<close>, which is \<^verbatim>\<open>undefined\<close> for an empty argument list.\<close>

fun arg0 :: "val list \<Rightarrow> val" where
  "arg0 [] = Undefined"
| "arg0 (x # xs) = x"

text \<open>
  The factory \<^verbatim>\<open>atom(read, write?)\<close>. \<open>self\<close> is the reference of the object
  \<^verbatim>\<open>config\<close> that the call creates; \<open>fns\<close> gives the body of every function value.
  The first argument is an initial value (\<open>Inl\<close>, \<^verbatim>\<open>typeof read !== "function"\<close>) or
  a read function (\<open>Inr\<close>).
\<close>

definition default_write :: "(nat \<Rightarrow> val \<Rightarrow> val) \<Rightarrow> atom \<Rightarrow> val list \<Rightarrow> wprog" where
  "default_write fns self args =
     (case arg0 args of
        Fn f \<Rightarrow> WGet self (\<lambda>prev. WSet self [fns f prev] WReturn)
      | arg \<Rightarrow> WSet self [arg] WReturn)"

definition atom_factory ::
  "(nat \<Rightarrow> val \<Rightarrow> val) \<Rightarrow> atom \<Rightarrow> val + rprog \<Rightarrow> (val list \<Rightarrow> wprog) option \<Rightarrow> atom_def" where
  "atom_factory fns self rd wr =
     (let config =
        (case rd of
           Inr f \<Rightarrow> \<lparr>read = f, init = None, write_fn = None\<rparr>
         | Inl x \<Rightarrow> \<lparr>read = Get self Return, init = Some x,
                     write_fn = Some (default_write fns self)\<rparr>)
      in case wr of None \<Rightarrow> config | Some w \<Rightarrow> config\<lparr>write_fn := Some w\<rparr>)"

subsection \<open>The state of a store\<close>

datatype atom_state =
  AtomState (deps: "(atom \<times> atom_state option) list") (val_of: val)
  \<comment> \<open>\<^verbatim>\<open>{ d, v }\<close>; \<^verbatim>\<open>d\<close> is a Map, kept in insertion order\<close>

record mounted =
  listeners_of :: "listener list"   \<comment> \<open>\<^verbatim>\<open>l\<close>, a Set in insertion order\<close>
  dependents :: "atom list"         \<comment> \<open>\<^verbatim>\<open>t\<close>, a Set in insertion order\<close>

datatype event = ReadCalled atom | ListenerCalled listener

record store =
  atomStateMap :: "atom \<rightharpoonup> atom_state"
  mountedMap :: "atom \<rightharpoonup> mounted"
  pendingMap :: "(atom \<times> atom_state option) list"
  trace :: "event list"
  \<comment> \<open>\<open>trace\<close> is not a field of the source: it lists, in order, the calls of read
      functions and of listeners that the store has made.\<close>

datatype action = DoGet atom | DoSet atom "val list"

record env =
  atom_defs :: "atom \<Rightarrow> atom_def"
  listener_body :: "listener \<Rightarrow> action list"

definition createStore :: store where
  "createStore = \<lparr>atomStateMap = Map.empty, mountedMap = Map.empty, pendingMap = [], trace = []\<rparr>"

text \<open>\<^verbatim>\<open>set.add(x)\<close> on a Set kept in insertion order.\<close>

definition set_add :: "'a \<Rightarrow> 'a list \<Rightarrow> 'a list" where
  "set_add x xs = (if x \<in> set xs then xs else xs @ [x])"

subsection \<open>Reading\<close>

definition getAtomState :: "store \<Rightarrow> atom \<Rightarrow> atom_state option" where
  "getAtomState s atom = atomStateMap s atom"

definition setAtomState :: "atom \<Rightarrow> atom_state \<Rightarrow> store \<Rightarrow> store" where
  "setAtomState atom atomState s =
     (let prevAtomState = atomStateMap s atom;
          s1 = s\<lparr>atomStateMap := (atomStateMap s)(atom \<mapsto> atomState)\<rparr>
      in if atom \<in> fst ` set (pendingMap s1) then s1
         else s1\<lparr>pendingMap := pendingMap s1 @ [(atom, prevAtomState)]\<rparr>)"

definition isEqualAtomValue :: "atom_state \<Rightarrow> atom_state \<Rightarrow> bool" where
  "isEqualAtomValue a b = (val_of a = val_of b)"

definition returnAtomValue :: "atom_state \<Rightarrow> val" where
  "returnAtomValue atomState = val_of atomState"

definition hasInitialValue :: "atom_def \<Rightarrow> bool" where
  "hasInitialValue a = (init a \<noteq> None)"

definition setAtomValue ::
  "atom \<Rightarrow> val \<Rightarrow> (atom \<times> atom_state option) list option \<Rightarrow> store \<Rightarrow> atom_state \<times> store" where
  "setAtomValue atom value nextDependencies s =
     (let prevAtomState = getAtomState s atom;
          nextAtomState =
            AtomState (case nextDependencies of Some nd \<Rightarrow> nd | None \<Rightarrow> []) value
      in case prevAtomState of
           Some p \<Rightarrow>
             if isEqualAtomValue p nextAtomState then (p, s)
             else (nextAtomState, setAtomState atom nextAtomState s)
         | None \<Rightarrow> (nextAtomState, setAtomState atom nextAtomState s))"

text \<open>Running a read function against a getter that threads a state \<open>'s\<close>.\<close>

primrec run_read ::
  "(atom \<Rightarrow> 's \<Rightarrow> (val \<times> 's) result) \<Rightarrow> rprog \<Rightarrow> 's \<Rightarrow> (val \<times> 's) result" where
  "run_read g (Return x) = (\<lambda>s. Ok (x, s))"
| "run_read g (Get a k) = (\<lambda>s. bind (g a s) (\<lambda>(x, s'). run_read g (k x) s'))"

type_synonym reader = "atom \<Rightarrow> store \<Rightarrow> (atom_state \<times> store) result"
type_synonym next_deps = "(atom \<times> atom_state option) list"

text \<open>
  The getter that \<^verbatim>\<open>readAtomState(atom)\<close> builds. \<open>rd\<close> stands for the recursive
  call \<^verbatim>\<open>readAtomState(a)\<close>; the local Map \<^verbatim>\<open>nextDependencies\<close> is threaded
  beside the store.
\<close>

definition getter ::
  "reader \<Rightarrow> env \<Rightarrow> atom \<Rightarrow> atom \<Rightarrow> next_deps \<times> store \<Rightarrow> (val \<times> next_deps \<times> store) result" where
  "getter rd e atom a = (\<lambda>(nextDependencies, s).
     if a = atom then
       (case getAtomState s a of
          Some aState \<Rightarrow>
            Ok (returnAtomValue aState, AList.update a (Some aState) nextDependencies, s)
        | None \<Rightarrow>
            if hasInitialValue (atom_defs e a)
            then Ok (the (init (atom_defs e a)), AList.update a None nextDependencies, s)
            else Throw NoAtomInit)
     else
       bind (rd a s) (\<lambda>(aState, s').
         Ok (returnAtomValue aState, AList.update a (Some aState) nextDependencies, s')))"

text \<open>Lines 63 to 87 of \<^verbatim>\<open>readAtomState\<close>: the read function is called, its value stored.\<close>

definition computeAtomState :: "reader \<Rightarrow> env \<Rightarrow> atom \<Rightarrow> store \<Rightarrow> (atom_state \<times> store) result" where
  "computeAtomState rd e atom s =
     bind (run_read (getter rd e atom) (read (atom_defs e atom))
             ([], s\<lparr>trace := trace s @ [ReadCalled atom]\<rparr>))
       (\<lambda>(value, nextDependencies, s').
          Ok (setAtomValue atom value (Some nextDependencies) s'))"

fun readAtomState :: "nat \<Rightarrow> env \<Rightarrow> atom \<Rightarrow> bool \<Rightarrow> store \<Rightarrow> (atom_state \<times> store) result" where
  "readAtomState 0 e atom force s = Timeout"
| "readAtomState (Suc n) e atom force s =
     (case getAtomState s atom of
        Some atomState \<Rightarrow>
          if \<not> force then Ok (atomState, s)
          else computeAtomState (\<lambda>a s'. readAtomState n e a False s') e atom s
      | None \<Rightarrow> computeAtomState (\<lambda>a s'. readAtomState n e a False s') e atom s)"

definition readAtom :: "nat \<Rightarrow> env \<Rightarrow> atom \<Rightarrow> store \<Rightarrow> (val \<times> store) result" where
  "readAtom n e atom s =
     bind (readAtomState n e atom False s) (\<lambda>(atomState, s'). Ok (returnAtomValue atomState, s'))"

subsection \<open>Writing\<close>

text \<open>Running a write function against a getter and a setter.\<close>

primrec run_write ::
  "(atom \<Rightarrow> 's \<Rightarrow> (val \<times> 's) result) \<Rightarrow> (atom \<Rightarrow> val list \<Rightarrow> 's \<Rightarrow> (val \<times> 's) result)
   \<Rightarrow> wprog \<Rightarrow> 's \<Rightarrow> (val \<times> 's) result" where
  "run_write g st (WReturn x) = (\<lambda>s. Ok (x, s))"
| "run_write g st (WGet a k) = (\<lambda>s. bind (g a s) (\<lambda>(x, s'). run_write g st (k x) s'))"
| "run_write g st (WSet a args k) =
     (\<lambda>s. bind (st a args s) (\<lambda>(r, s'). run_write g st (k r) s'))"

text \<open>The snapshot \<^verbatim>\<open>new Set(mountedMap.get(atom)?.t)\<close>.\<close>

definition dependents_of :: "store \<Rightarrow> atom \<Rightarrow> atom list" where
  "dependents_of s atom = (case mountedMap s atom of None \<Rightarrow> [] | Some m \<Rightarrow> dependents m)"

fun recomputeDependents :: "nat \<Rightarrow> env \<Rightarrow> atom \<Rightarrow> store \<Rightarrow> store result" where
  "recomputeDependents 0 e atom s = Timeout"
| "recomputeDependents (Suc n) e atom s =
     forEach (dependents_of s atom)
       (\<lambda>dependent s1.
          bind (if dependent \<noteq> atom
                then bind (readAtomState n e dependent True s1) (\<lambda>(_, s2). Ok s2)
                else Ok s1)
            (\<lambda>s2. recomputeDependents n e dependent s2))
       s"

text \<open>
  The getter and the setter that \<^verbatim>\<open>writeAtomState(atom, ...args)\<close> builds. \<open>wr\<close>
  stands for the recursive call \<^verbatim>\<open>writeAtomState(a, ...args)\<close>. The setter returns
  \<^verbatim>\<open>undefined\<close> (the unassigned \<^verbatim>\<open>r\<close>) when it is called on \<open>atom\<close> itself.
\<close>

definition write_getter :: "nat \<Rightarrow> env \<Rightarrow> atom \<Rightarrow> store \<Rightarrow> (val \<times> store) result" where
  "write_getter n e a s =
     bind (readAtomState n e a False s) (\<lambda>(aState, s'). Ok (returnAtomValue aState, s'))"

definition setter ::
  "(atom \<Rightarrow> val list \<Rightarrow> store \<Rightarrow> (val \<times> store) result) \<Rightarrow> nat \<Rightarrow> env \<Rightarrow> atom
   \<Rightarrow> atom \<Rightarrow> val list \<Rightarrow> store \<Rightarrow> (val \<times> store) result" where
  "setter wr n e atom a args s =
     (if a = atom then
        (let prevAtomState = getAtomState s a;
             (nextAtomState, s1) = setAtomValue a (arg0 args) None s
         in bind (if prevAtomState = None
                     \<or> \<not> isEqualAtomValue (the prevAtomState) nextAtomState
                  then recomputeDependents n e a s1
                  else Ok s1)
              (\<lambda>s2. Ok (Undefined, s2)))
      else wr a args s)"

fun writeAtomState :: "nat \<Rightarrow> env \<Rightarrow> atom \<Rightarrow> val list \<Rightarrow> store \<Rightarrow> (val \<times> store) result" where
  "writeAtomState 0 e atom args s = Timeout"
| "writeAtomState (Suc n) e atom args s =
     (case write_fn (atom_defs e atom) of
        None \<Rightarrow> Throw NotAFunction
      | Some w \<Rightarrow>
          run_write (write_getter n e)
            (setter (\<lambda>a args' s'. writeAtomState n e a args' s') n e atom)
            (w args) s)"

text \<open>
  \<^verbatim>\<open>flushPending\<close> and \<^verbatim>\<open>writeAtom\<close>. A listener is called from the flush and may
  call \<^verbatim>\<open>store.get\<close> and \<^verbatim>\<open>store.set\<close> in turn, so the two are mutually recursive.
\<close>

definition should_notify :: "store \<Rightarrow> atom \<Rightarrow> atom_state option \<Rightarrow> bool" where
  "should_notify s atom prevAtomState =
     (case (mountedMap s atom, getAtomState s atom) of
        (Some m, Some atomState) \<Rightarrow>
          \<not> (prevAtomState \<noteq> None \<and> isEqualAtomValue (the prevAtomState) atomState)
      | _ \<Rightarrow> False)"

definition mounted_listeners :: "store \<Rightarrow> atom \<Rightarrow> listener list" where
  "mounted_listeners s atom = (case mountedMap s atom of None \<Rightarrow> [] | Some m \<Rightarrow> listeners_of m)"

definition ignore_value :: "('a \<times> 's) result \<Rightarrow> 's result" where
  "ignore_value r = bind r (\<lambda>(_, s). Ok s)"

fun flushPending :: "nat \<Rightarrow> env \<Rightarrow> store \<Rightarrow> store result"
and writeAtom :: "nat \<Rightarrow> env \<Rightarrow> atom \<Rightarrow> val list \<Rightarrow> store \<Rightarrow> (val \<times> store) result" where
  "flushPending 0 e s = Timeout"
| "flushPending (Suc n) e s =
     (if pendingMap s = [] then Ok s
      else
        bind (forEach (pendingMap s)
                (\<lambda>(atom, prevAtomState) s1.
                   if should_notify s1 atom prevAtomState then
                     forEach (mounted_listeners s1 atom)
                       (\<lambda>li s2.
                          forEach (listener_body e li)
                            (\<lambda>act s3. case act of
                                 DoGet a \<Rightarrow> ignore_value (readAtom n e a s3)
                               | DoSet a args \<Rightarrow> ignore_value (writeAtom n e a args s3))
                            (s2\<lparr>trace := trace s2 @ [ListenerCalled li]\<rparr>))
                       s1
                   else Ok s1)
                (s\<lparr>pendingMap := []\<rparr>))
          (\<lambda>s'. flushPending n e s'))"
| "writeAtom 0 e atom args s = Timeout"
| "writeAtom (Suc n) e atom args s =
     bind (writeAtomState n e atom args s)
       (\<lambda>(result, s1). bind (flushPending n e s1) (\<lambda>s2. Ok (result, s2)))"

subsection \<open>Mounting\<close>

definition new_mounted :: "atom option \<Rightarrow> mounted" where
  "new_mounted initialDependent =
     \<lparr>listeners_of = [],
      dependents = (case initialDependent of None \<Rightarrow> [] | Some x \<Rightarrow> [x])\<rparr>"

fun mountAtom :: "nat \<Rightarrow> atom \<Rightarrow> atom option \<Rightarrow> store \<Rightarrow> store result" where
  "mountAtom 0 atom initialDependent s = Timeout"
| "mountAtom (Suc n) atom initialDependent s =
     bind (forEach (case getAtomState s atom of None \<Rightarrow> [] | Some st \<Rightarrow> map fst (deps st))
             (\<lambda>a s1.
                case mountedMap s1 a of
                  Some aMounted \<Rightarrow>
                    Ok (s1\<lparr>mountedMap := (mountedMap s1)
                          (a \<mapsto> aMounted\<lparr>dependents := set_add atom (dependents aMounted)\<rparr>)\<rparr>)
                | None \<Rightarrow> if a \<noteq> atom then mountAtom n a (Some atom) s1 else Ok s1)
             s)
       (\<lambda>s'. Ok (s'\<lparr>mountedMap := (mountedMap s')(atom \<mapsto> new_mounted initialDependent)\<rparr>))"

definition addAtom :: "nat \<Rightarrow> atom \<Rightarrow> store \<Rightarrow> store result" where
  "addAtom n atom s =
     (case mountedMap s atom of Some mounted \<Rightarrow> Ok s | None \<Rightarrow> mountAtom n atom None s)"

definition unmountAtom :: "atom \<Rightarrow> store \<Rightarrow> store" where
  "unmountAtom atom s =
     (let s1 = s\<lparr>mountedMap := (mountedMap s)(atom := None)\<rparr>
      in case getAtomState s1 atom of
           None \<Rightarrow> s1
         | Some atomState \<Rightarrow>
             fold (\<lambda>a s2.
                     if a \<noteq> atom then
                       (case mountedMap s2 a of
                          Some aMounted \<Rightarrow>
                            if atom \<in> set (dependents aMounted)
                            then s2\<lparr>mountedMap := (mountedMap s2)
                                   (a \<mapsto> aMounted\<lparr>dependents := removeAll atom (dependents aMounted)\<rparr>)\<rparr>
                            else s2
                        | None \<Rightarrow> s2)
                     else s2)
               (map fst (deps atomState)) s1)"

text \<open>
  \<^verbatim>\<open>subscribeAtom(atom, listener)\<close>. The function it returns is
  \<open>unmountAtom atom\<close>; the model returns the store only.
\<close>

definition subscribeAtom :: "nat \<Rightarrow> atom \<Rightarrow> listener \<Rightarrow> store \<Rightarrow> store result" where
  "subscribeAtom n atom li s =
     bind (addAtom n atom s)
       (\<lambda>s1. case mountedMap s1 atom of
                None \<Rightarrow> Ok s1
              | Some mounted \<Rightarrow>
                  Ok (s1\<lparr>mountedMap := (mountedMap s1)
                        (atom \<mapsto> mounted\<lparr>listeners_of := set_add li (listeners_of mounted)\<rparr>)\<rparr>))"

subsection \<open>Relations between the store before and after an operation\<close>

text \<open>
  \<open>read_closed R\<close>: the relation \<open>R\<close> is a preorder that holds across the two
  elementary steps of a read, the call of a read function and \<open>setAtomState\<close>.
  \<open>write_closed R\<close>: it holds across the steps of a flush as well.
\<close>

definition read_closed :: "(store \<Rightarrow> store \<Rightarrow> bool) \<Rightarrow> bool" where
  "read_closed R \<longleftrightarrow>
     (\<forall>s. R s s) \<and> (\<forall>s1 s2 s3. R s1 s2 \<longrightarrow> R s2 s3 \<longrightarrow> R s1 s3)
     \<and> (\<forall>s a. R s (s\<lparr>trace := trace s @ [ReadCalled a]\<rparr>))
     \<and> (\<forall>s a st. R s (setAtomState a st s))"

definition write_closed :: "(store \<Rightarrow> store \<Rightarrow> bool) \<Rightarrow> bool" where
  "write_closed R \<longleftrightarrow>
     read_closed R
     \<and> (\<forall>s. R s (s\<lparr>pendingMap := []\<rparr>))
     \<and> (\<forall>s li. R s (s\<lparr>trace := trace s @ [ListenerCalled li]\<rparr>))"

text \<open>The two stores differ in the mount table at most.\<close>

definition mount_only :: "store \<Rightarrow> store \<Rightarrow> bool" where
  "mount_only s s' \<longleftrightarrow> s' = s\<lparr>mountedMap := mountedMap s'\<rparr>"

definition same_mounted :: "store \<Rightarrow> store \<Rightarrow> bool" where
  "same_mounted s s' \<longleftrightarrow> mountedMap s' = mountedMap s"

text \<open>
  The pending set has only been appended to, and it holds every cell whose entry in the
  state table has changed.
\<close>

definition pending_tracks :: "store \<Rightarrow> store \<Rightarrow> bool" where
  "pending_tracks s s' \<longleftrightarrow>
     (\<exists>ps. pendingMap s' = pendingMap s @ ps)
     \<and> (\<forall>b. atomStateMap s' b \<noteq> atomStateMap s b \<longrightarrow> b \<in> fst ` set (pendingMap s'))"


text \<open>
  \<open>cached_stay\<close>: every cell with a cached state still has one. \<open>lacks_value e s err\<close>:
  the error is the one of a self-read, and some cell of \<open>e\<close> that reads itself has
  no \<^verbatim>\<open>init\<close> and no cached state in \<open>s\<close>.
\<close>

definition cached_stay :: "store \<Rightarrow> store \<Rightarrow> bool" where
  "cached_stay s s' \<longleftrightarrow> (\<forall>z. atomStateMap s z \<noteq> None \<longrightarrow> atomStateMap s' z \<noteq> None)"

text \<open>
  \<open>reads_uncached\<close>: cached cells stay cached, and the trace has grown by calls of read
  functions of cells that had no cached state.
\<close>

definition reads_uncached :: "store \<Rightarrow> store \<Rightarrow> bool" where
  "reads_uncached s s' \<longleftrightarrow>
     cached_stay s s'
     \<and> (\<exists>evs. trace s' = trace s @ evs
            \<and> (\<forall>ev \<in> set evs. \<exists>b. ev = ReadCalled b \<and> atomStateMap s b = None))"






subsection \<open>The bound on the depth\<close>

text \<open>A result that a larger bound on the depth can still turn into: itself, unless it is \<open>Timeout\<close>.\<close>

definition below :: "'a result \<Rightarrow> 'a result \<Rightarrow> bool" where
  "below r r' \<longleftrightarrow> r = Timeout \<or> r = r'"

subsection \<open>Notions for the propagation of a write\<close>







subsection \<open>Example cells\<close>

text \<open>
  \<^verbatim>\<open>const count = atom(0)\<close> and \<^verbatim>\<open>const double = atom((get) => get(count) * 2)\<close>;
  every other reference stands for a cell defined like \<open>double\<close>. No function value
  and no listener body is needed: a listener only records that it was called.
\<close>

definition count_atom :: atom where "count_atom = 0"
definition double_atom :: atom where "double_atom = 1"

definition times2 :: "val \<Rightarrow> val" where
  "times2 x = (case x of Num i \<Rightarrow> Num (i * 2) | _ \<Rightarrow> Undefined)"

definition demo_env :: env where
  "demo_env =
     \<lparr>atom_defs = (\<lambda>a.
        if a = count_atom then atom_factory (\<lambda>f x. x) count_atom (Inl (Num 0)) None
        else atom_factory (\<lambda>f x. x) a (Inr (Get count_atom (\<lambda>x. Return (times2 x)))) None),
      listener_body = (\<lambda>li. [])\<rparr>"

text \<open>A store in which \<open>count\<close> holds 5 and \<open>double\<close> holds 10, nothing mounted.\<close>

definition demo_store :: store where
  "demo_store =
     \<lparr>atomStateMap = [count_atom \<mapsto> AtomState [] (Num 5),
                      double_atom \<mapsto> AtomState [(count_atom, None)] (Num 10)],
      mountedMap = Map.empty, pendingMap = [], trace = []\<rparr>"

text \<open>
  A cell with a dependency that changes: \<open>switch\<close> reads \<open>flag\<close> and, only while
  \<open>flag\<close> is 0, \<open>other\<close>. Every reference but \<open>switch_atom\<close> stands for a
  primitive cell \<^verbatim>\<open>atom(0)\<close>. \<open>switch_store\<close> is the store after
  \<^verbatim>\<open>get(switch)\<close>, \<^verbatim>\<open>sub(switch, 7)\<close> and a flush.
\<close>

definition other_atom :: atom where "other_atom = 2"
definition flag_atom :: atom where "flag_atom = 3"
definition switch_atom :: atom where "switch_atom = 4"

definition switch_env :: env where
  "switch_env =
     \<lparr>atom_defs = (\<lambda>a.
        if a = switch_atom then
          atom_factory (\<lambda>f x. x) a
            (Inr (Get flag_atom (\<lambda>f. if f = Num 0 then Get other_atom Return else Return (Num 7)))) None
        else atom_factory (\<lambda>f x. x) a (Inl (Num 0)) None),
      listener_body = (\<lambda>li. [])\<rparr>"

definition switch_store :: store where
  "switch_store =
     \<lparr>atomStateMap =
        [flag_atom \<mapsto> AtomState [(flag_atom, None)] (Num 0),
         other_atom \<mapsto> AtomState [(other_atom, None)] (Num 0),
         switch_atom \<mapsto> AtomState [(flag_atom, Some (AtomState [(flag_atom, None)] (Num 0))),
                                   (other_atom, Some (AtomState [(other_atom, None)] (Num 0)))] (Num 0)],
      mountedMap =
        [flag_atom \<mapsto> \<lparr>listeners_of = [], dependents = [switch_atom]\<rparr>,
         other_atom \<mapsto> \<lparr>listeners_of = [], dependents = [switch_atom]\<rparr>,
         switch_atom \<mapsto> \<lparr>listeners_of = [7], dependents = []\<rparr>],
      pendingMap = [], trace = []\<rparr>"

text \<open>A primitive cell of \<open>switch_env\<close> that no other cell reads.\<close>

definition unrelated_atom :: atom where "unrelated_atom = 9"



text \<open>
  The updater \<^verbatim>\<open>(prev) => prev + 1\<close> as the body of every function value, and a
  cell \<^verbatim>\<open>atom(0, (get, set, arg) => set(self, arg))\<close> whose write function hands
  its argument to the setter as it is. Every other reference stands for \<^verbatim>\<open>atom(0)\<close>.
\<close>

definition incr :: "val \<Rightarrow> val" where
  "incr prev = (case prev of Num i \<Rightarrow> Num (i + 1) | _ \<Rightarrow> Undefined)"

definition passing_atom :: atom where "passing_atom = 8"

definition passing_env :: env where
  "passing_env =
     \<lparr>atom_defs = (\<lambda>a.
        if a = passing_atom then
          atom_factory (\<lambda>f. incr) a (Inl (Num 0))
            (Some (\<lambda>args. WSet passing_atom [arg0 args] WReturn))
        else atom_factory (\<lambda>f. incr) a (Inl (Num 0)) None),
      listener_body = (\<lambda>li. [])\<rparr>"





section \<open>Lemmas\<close>

subsection \<open>Results and loops\<close>


lemma bind_Ok_iff: "bind r f = Ok y \<longleftrightarrow> (\<exists>x. r = Ok x \<and> f x = Ok y)"
  by (cases r) auto

lemma bind_Ok_right: "bind r Ok = r"
  by (cases r) auto

lemma forEach_rel:
  assumes refl: "\<And>s. R s s"
    and trans: "\<And>s1 s2 s3. R s1 s2 \<Longrightarrow> R s2 s3 \<Longrightarrow> R s1 s3"
    and step: "\<And>x s s'. x \<in> set xs \<Longrightarrow> f x s = Ok s' \<Longrightarrow> R s s'"
  shows "forEach xs f s = Ok s' \<Longrightarrow> R s s'"
  using step
proof (induction xs arbitrary: s)
  case Nil
  then show ?case by (simp add: refl)
next
  case (Cons x xs)
  from Cons.prems(1) obtain s1 where 1: "f x s = Ok s1" and 2: "forEach xs f s1 = Ok s'"
    by (auto simp: bind_Ok_iff)
  have "R s s1" by (rule Cons.prems(2)[OF _ 1]) simp
  moreover have "R s1 s'" by (rule Cons.IH[OF 2]) (rule Cons.prems(2), simp_all)
  ultimately show ?case by (rule trans)
qed

lemma run_read_rel:
  assumes refl: "\<And>s. Q s s"
    and trans: "\<And>s1 s2 s3. Q s1 s2 \<Longrightarrow> Q s2 s3 \<Longrightarrow> Q s1 s3"
    and step: "\<And>a s x s'. g a s = Ok (x, s') \<Longrightarrow> Q s s'"
  shows "run_read g p s = Ok (x, s') \<Longrightarrow> Q s s'"
proof (induction p arbitrary: s)
  case (Return y)
  then show ?case by (simp add: refl)
next
  case (Get a k)
  from Get.prems obtain y s1 where 1: "g a s = Ok (y, s1)" and 2: "run_read g (k y) s1 = Ok (x, s')"
    by (auto simp: bind_Ok_iff)
  have "Q s s1" using step 1 by simp
  moreover have "Q s1 s'" using Get.IH 2 by blast
  ultimately show ?case by (rule trans)
qed

lemma run_write_rel:
  assumes refl: "\<And>s. Q s s"
    and trans: "\<And>s1 s2 s3. Q s1 s2 \<Longrightarrow> Q s2 s3 \<Longrightarrow> Q s1 s3"
    and gstep: "\<And>a s x s'. g a s = Ok (x, s') \<Longrightarrow> Q s s'"
    and sstep: "\<And>a args s x s'. st a args s = Ok (x, s') \<Longrightarrow> Q s s'"
  shows "run_write g st p s = Ok (x, s') \<Longrightarrow> Q s s'"
proof (induction p arbitrary: s)
  case (WReturn y)
  then show ?case by (simp add: refl)
next
  case (WGet a k)
  from WGet.prems obtain y s1 where 1: "g a s = Ok (y, s1)" and 2: "run_write g st (k y) s1 = Ok (x, s')"
    by (auto simp: bind_Ok_iff)
  have "Q s s1" using gstep 1 by simp
  moreover have "Q s1 s'" using WGet.IH 2 by blast
  ultimately show ?case by (rule trans)
next
  case (WSet a args k)
  from WSet.prems obtain y s1 where 1: "st a args s = Ok (y, s1)" and 2: "run_write g st (k y) s1 = Ok (x, s')"
    by (auto simp: bind_Ok_iff)
  have "Q s s1" using sstep 1 by simp
  moreover have "Q s1 s'" using WSet.IH 2 by blast
  ultimately show ?case by (rule trans)
qed

lemma read_closedD:
  assumes "read_closed R"
  shows "R s s" and "R s1 s2 \<Longrightarrow> R s2 s3 \<Longrightarrow> R s1 s3"
    and "R s (s\<lparr>trace := trace s @ [ReadCalled a]\<rparr>)" and "R s (setAtomState a st s)"
  using assms unfolding read_closed_def by blast+

lemma setAtomValue_rel:
  assumes "read_closed R"
  shows "R s (snd (setAtomValue a x nd s))"
  using read_closedD(1,4)[OF assms]
  by (simp add: setAtomValue_def Let_def split: option.splits)

lemma computeAtomState_rel:
  assumes rc: "read_closed R"
    and rd: "\<And>b s st s'. rd b s = Ok (st, s') \<Longrightarrow> R s s'"
    and res: "computeAtomState rd e a s = Ok (st, s')"
  shows "R s s'"
proof -
  from res obtain x nd s1 where
    run: "run_read (getter rd e a) (read (atom_defs e a)) ([], s\<lparr>trace := trace s @ [ReadCalled a]\<rparr>) = Ok (x, nd, s1)"
    and fin: "setAtomValue a x (Some nd) s1 = (st, s')"
    by (auto simp: computeAtomState_def bind_Ok_iff)
  have g: "\<And>b \<sigma> y \<sigma>'. getter rd e a b \<sigma> = Ok (y, \<sigma>') \<Longrightarrow> R (snd \<sigma>) (snd \<sigma>')"
    using rd read_closedD(1)[OF rc]
    by (auto simp: getter_def bind_Ok_iff split: if_splits option.splits prod.splits)
  have "R (snd ([]::next_deps, s\<lparr>trace := trace s @ [ReadCalled a]\<rparr>)) (snd (nd, s1))"
    by (rule run_read_rel[where Q = "\<lambda>\<sigma> \<sigma>'. R (snd \<sigma>) (snd \<sigma>')", OF _ _ _ run])
       (auto intro: read_closedD(1,2)[OF rc] g)
  then have "R (s\<lparr>trace := trace s @ [ReadCalled a]\<rparr>) s1" by simp
  moreover have "R s1 s'" using setAtomValue_rel[OF rc, of s1 a x "Some nd"] fin by simp
  ultimately show ?thesis
    using read_closedD(2,3)[OF rc] by blast
qed

lemma readAtomState_rel:
  assumes rc: "read_closed R"
  shows "readAtomState n e a force s = Ok (st, s') \<Longrightarrow> R s s'"
proof (induction n arbitrary: a force s st s')
  case 0
  then show ?case by simp
next
  case (Suc n)
  show ?case
  proof (cases "\<not> force \<and> getAtomState s a \<noteq> None")
    case True
    with Suc.prems have "s' = s" by auto
    then show ?thesis by (simp add: read_closedD(1)[OF rc])
  next
    case False
    with Suc.prems have "computeAtomState (\<lambda>b s1. readAtomState n e b False s1) e a s = Ok (st, s')"
      by (auto split: option.splits if_splits)
    then show ?thesis
      by (rule computeAtomState_rel[OF rc, rotated]) (rule Suc.IH)
  qed
qed

lemma recomputeDependents_rel:
  assumes rc: "read_closed R"
  shows "recomputeDependents n e a s = Ok s' \<Longrightarrow> R s s'"
proof (induction n arbitrary: a s s')
  case 0
  then show ?case by simp
next
  case (Suc n)
  show ?case
  proof (rule forEach_rel[where R = R, OF _ _ _ Suc.prems[simplified]])
    fix x s1 s2
    assume "bind (if x \<noteq> a then bind (readAtomState n e x True s1) (\<lambda>(_, s2). Ok s2) else Ok s1)
              (recomputeDependents n e x) = Ok s2"
    then obtain s3 where 1: "(if x \<noteq> a then bind (readAtomState n e x True s1) (\<lambda>(_, s2). Ok s2) else Ok s1) = Ok s3"
      and 2: "recomputeDependents n e x s3 = Ok s2"
      by (auto simp: bind_Ok_iff)
    have "R s1 s3" using 1 readAtomState_rel[OF rc] read_closedD(1)[OF rc]
      by (auto simp: bind_Ok_iff split: if_splits)
    moreover have "R s3 s2" using Suc.IH 2 by blast
    ultimately show "R s1 s2" by (rule read_closedD(2)[OF rc])
  qed (auto intro: read_closedD(1,2)[OF rc])
qed


lemma forEach_rc:
  assumes rc: "read_closed R"
    and step: "\<And>x s s'. x \<in> set xs \<Longrightarrow> f x s = Ok s' \<Longrightarrow> R s s'"
    and res: "forEach xs f s = Ok s'"
  shows "R s s'"
  using read_closedD(1)[OF rc] read_closedD(2)[OF rc] step res
  by (rule forEach_rel[where R = R])

lemma setter_rel:
  assumes rc: "read_closed R"
    and wr: "\<And>b args s r s'. wr b args s = Ok (r, s') \<Longrightarrow> R s s'"
    and res: "setter wr n e a b args s = Ok (r, s')"
  shows "R s s'"
proof (cases "b = a")
  case False
  then show ?thesis using res wr by (simp add: setter_def)
next
  case True
  obtain nx s1 where sv: "setAtomValue a (arg0 args) None s = (nx, s1)"
    by (cases "setAtomValue a (arg0 args) None s")
  have 1: "R s s1" using setAtomValue_rel[OF rc, of s a "arg0 args" None] sv by simp
  from res True sv have "recomputeDependents n e a s1 = Ok s' \<or> s' = s1"
    by (auto simp: setter_def Let_def bind_Ok_iff split: if_splits)
  then have "R s1 s'"
    using recomputeDependents_rel[OF rc] read_closedD(1)[OF rc] by blast
  with 1 show ?thesis by (rule read_closedD(2)[OF rc])
qed

lemma write_getter_rel:
  assumes rc: "read_closed R"
  shows "write_getter n e a s = Ok (x, s') \<Longrightarrow> R s s'"
  using readAtomState_rel[OF rc]
  by (auto simp: write_getter_def bind_Ok_iff)

lemma readAtom_rel:
  assumes rc: "read_closed R"
  shows "readAtom n e a s = Ok (x, s') \<Longrightarrow> R s s'"
  using readAtomState_rel[OF rc]
  by (auto simp: readAtom_def bind_Ok_iff)

lemma writeAtomState_rel:
  assumes rc: "read_closed R"
  shows "writeAtomState n e a args s = Ok (r, s') \<Longrightarrow> R s s'"
proof (induction n arbitrary: a args s r s')
  case 0
  then show ?case by simp
next
  case (Suc n)
  from Suc.prems obtain w where w: "write_fn (atom_defs e a) = Some w"
    and run: "run_write (write_getter n e)
            (setter (\<lambda>a args' s'. writeAtomState n e a args' s') n e a) (w args) s = Ok (r, s')"
    by (auto split: option.splits)
  show ?case
  proof (rule run_write_rel[where Q = R, OF _ _ _ _ run])
    fix b args' s1 x s2
    assume "setter (\<lambda>a args' s'. writeAtomState n e a args' s') n e a b args' s1 = Ok (x, s2)"
    then show "R s1 s2"
      by (rule setter_rel[OF rc, rotated]) (rule Suc.IH)
  qed (auto intro: read_closedD(1,2)[OF rc] write_getter_rel[OF rc])
qed

lemma write_closedD:
  assumes "write_closed R"
  shows "read_closed R" and "R s (s\<lparr>pendingMap := []\<rparr>)"
    and "R s (s\<lparr>trace := trace s @ [ListenerCalled li]\<rparr>)"
  using assms unfolding write_closed_def by blast+

lemma ignore_value_Ok: "ignore_value r = Ok s' \<longleftrightarrow> (\<exists>x. r = Ok (x, s'))"
  by (cases r) (auto simp: ignore_value_def)

lemma flushPending_writeAtom_rel:
  assumes wc: "write_closed R"
  shows "(flushPending n e s = Ok s' \<longrightarrow> R s s')
       \<and> (writeAtom n e a args s = Ok (r, s') \<longrightarrow> R s s')"
proof (induction n arbitrary: s s' a args r)
  case 0
  then show ?case by simp
next
  case (Suc n)
  note rc = write_closedD(1)[OF wc]
  note refl = read_closedD(1)[OF rc] and trans = read_closedD(2)[OF rc]
  have flush: "R s s'" if f: "flushPending (Suc n) e s = Ok s'"
  proof (cases "pendingMap s = []")
    case True
    with f show ?thesis by (simp add: refl)
  next
    case False
    let ?act = "\<lambda>act s3. case act of
                   DoGet a \<Rightarrow> ignore_value (readAtom n e a s3)
                 | DoSet a args \<Rightarrow> ignore_value (writeAtom n e a args s3)"
    let ?lis = "\<lambda>li s2. forEach (listener_body e li) ?act (s2\<lparr>trace := trace s2 @ [ListenerCalled li]\<rparr>)"
    let ?ent = "\<lambda>(atom, prevAtomState) s1.
                   if should_notify s1 atom prevAtomState
                   then forEach (mounted_listeners s1 atom) ?lis s1 else Ok s1"
    from f False obtain s1 where
      round: "forEach (pendingMap s) ?ent (s\<lparr>pendingMap := []\<rparr>) = Ok s1"
      and rest: "flushPending n e s1 = Ok s'"
      by (auto simp: bind_Ok_iff)
    have act: "R s3 s4" if "?act act s3 = Ok s4" for act s3 s4
      using that readAtom_rel[OF rc] Suc.IH
      by (cases act) (auto simp: ignore_value_Ok)
    have lis: "R s2 s3" if "?lis li s2 = Ok s3" for li s2 s3
    proof -
      have "R (s2\<lparr>trace := trace s2 @ [ListenerCalled li]\<rparr>) s3"
        by (rule forEach_rc[OF rc _ that]) (rule act)
      with write_closedD(3)[OF wc] show ?thesis by (rule trans)
    qed
    have ent: "R s2 s3" if "?ent x s2 = Ok s3" for x s2 s3
    proof (cases x)
      case (Pair atom prev)
      show ?thesis
      proof (cases "should_notify s2 atom prev")
        case True
        with that Pair have "forEach (mounted_listeners s2 atom) ?lis s2 = Ok s3" by simp
        then show ?thesis
          by (rule forEach_rc[OF rc, rotated]) (rule lis)
      next
        case False
        with that Pair show ?thesis by (simp add: refl)
      qed
    qed
    have "R (s\<lparr>pendingMap := []\<rparr>) s1"
      by (rule forEach_rc[OF rc _ round]) (rule ent)
    moreover have "R s1 s'" using Suc.IH rest by blast
    ultimately show ?thesis using write_closedD(2)[OF wc] trans by blast
  qed
  have wr: "R s s'" if w: "writeAtom (Suc n) e a args s = Ok (r, s')"
  proof -
    from w obtain s1 where 1: "writeAtomState n e a args s = Ok (r, s1)"
      and 2: "flushPending n e s1 = Ok s'"
      by (auto simp: bind_Ok_iff)
    have "R s s1" using writeAtomState_rel[OF rc 1] .
    moreover have "R s1 s'" using Suc.IH 2 by blast
    ultimately show ?thesis by (rule trans)
  qed
  from flush wr show ?case by blast
qed

subsection \<open>Mounting touches the mount table only\<close>

lemma mount_only_refl: "mount_only s s"
  by (simp add: mount_only_def)

lemma mount_only_trans: "mount_only s1 s2 \<Longrightarrow> mount_only s2 s3 \<Longrightarrow> mount_only s1 s3"
  unfolding mount_only_def by (metis store.update_convs(2) store.surjective store.select_convs)

lemma mount_only_upd: "mount_only s (s\<lparr>mountedMap := m\<rparr>)"
  by (simp add: mount_only_def)

lemma mountAtom_mount_only: "mountAtom n a i s = Ok s' \<Longrightarrow> mount_only s s'"
proof (induction n arbitrary: a i s s')
  case 0
  then show ?case by simp
next
  case (Suc n)
  let ?f = "\<lambda>b s1. case mountedMap s1 b of
                  Some aMounted \<Rightarrow>
                    Ok (s1\<lparr>mountedMap := (mountedMap s1)
                          (b \<mapsto> aMounted\<lparr>dependents := set_add a (dependents aMounted)\<rparr>)\<rparr>)
                | None \<Rightarrow> if b \<noteq> a then mountAtom n b (Some a) s1 else Ok s1"
  from Suc.prems obtain s1 where
    loop: "forEach (case getAtomState s a of None \<Rightarrow> [] | Some st \<Rightarrow> map fst (deps st)) ?f s = Ok s1"
    and fin: "s' = s1\<lparr>mountedMap := (mountedMap s1)(a \<mapsto> new_mounted i)\<rparr>"
    by (auto simp: bind_Ok_iff)
  have "mount_only s s1"
  proof (rule forEach_rel[where R = mount_only, OF mount_only_refl mount_only_trans _ loop])
    fix b s2 s3
    assume "?f b s2 = Ok s3"
    then show "mount_only s2 s3"
      using Suc.IH by (auto simp: mount_only_upd mount_only_refl split: option.splits if_splits)
  qed
  moreover have "mount_only s1 s'" by (simp add: fin mount_only_upd)
  ultimately show ?case by (rule mount_only_trans)
qed

lemma mount_only_then_upd: "mount_only s s1 \<Longrightarrow> mount_only s (s1\<lparr>mountedMap := m\<rparr>)"
  by (rule mount_only_trans[OF _ mount_only_upd])

lemma addAtom_mount_only: "addAtom n a s = Ok s' \<Longrightarrow> mount_only s s'"
  by (auto simp: addAtom_def mount_only_refl split: option.splits dest: mountAtom_mount_only)

lemma subscribeAtom_mount_only: "subscribeAtom n a li s = Ok s' \<Longrightarrow> mount_only s s'"
  by (auto simp: subscribeAtom_def bind_Ok_iff split: option.splits
      dest!: addAtom_mount_only intro: mount_only_then_upd)

lemma fold_mount_only:
  assumes "\<And>x s. mount_only s (f x s)"
  shows "mount_only s (fold f xs s)"
proof (induction xs arbitrary: s)
  case Nil show ?case by (simp add: mount_only_refl)
next
  case (Cons x xs)
  show ?case using mount_only_trans[OF assms Cons.IH] by simp
qed

lemma unmountAtom_mount_only: "mount_only s (unmountAtom a s)"
proof -
  have 1: "mount_only s (s\<lparr>mountedMap := (mountedMap s)(a := None)\<rparr>)" by (rule mount_only_upd)
  show ?thesis
    unfolding unmountAtom_def Let_def
    apply (cases "getAtomState (s\<lparr>mountedMap := (mountedMap s)(a := None)\<rparr>) a")
     apply (simp add: 1)
    apply simp
    apply (rule mount_only_trans[OF 1])
    apply (rule fold_mount_only)
    apply (auto simp: mount_only_upd mount_only_refl split: option.splits)
    done
qed

lemma mount_only_fields:
  "mount_only s s' \<Longrightarrow> trace s' = trace s \<and> atomStateMap s' = atomStateMap s \<and> pendingMap s' = pendingMap s"
  unfolding mount_only_def by (metis store.select_convs store.surjective store.update_convs(2))

subsection \<open>What \<open>setAtomState\<close> does to the pending set\<close>

lemma setAtomState_fields:
  "atomStateMap (setAtomState a st s) = (atomStateMap s)(a \<mapsto> st)"
  "mountedMap (setAtomState a st s) = mountedMap s"
  "trace (setAtomState a st s) = trace s"
  "pendingMap (setAtomState a st s) =
     (if a \<in> fst ` set (pendingMap s) then pendingMap s
      else pendingMap s @ [(a, atomStateMap s a)])"
  by (simp_all add: setAtomState_def Let_def)

lemma setAtomState_pending_tracks: "pending_tracks s (setAtomState a st s)"
  unfolding pending_tracks_def by (simp add: setAtomState_fields)

lemma pending_tracks_trans:
  assumes a: "pending_tracks s1 s2" and b: "pending_tracks s2 s3"
  shows "pending_tracks s1 s3"
  unfolding pending_tracks_def
proof (intro conjI allI impI)
  from a b show "\<exists>ps. pendingMap s3 = pendingMap s1 @ ps"
    by (auto simp: pending_tracks_def)
  fix c
  assume "atomStateMap s3 c \<noteq> atomStateMap s1 c"
  then have "atomStateMap s3 c \<noteq> atomStateMap s2 c \<or> atomStateMap s2 c \<noteq> atomStateMap s1 c" by auto
  then show "c \<in> fst ` set (pendingMap s3)"
  proof
    assume "atomStateMap s3 c \<noteq> atomStateMap s2 c"
    with b show ?thesis by (simp add: pending_tracks_def)
  next
    assume "atomStateMap s2 c \<noteq> atomStateMap s1 c"
    with a have "c \<in> fst ` set (pendingMap s2)" by (simp add: pending_tracks_def)
    moreover from b obtain ps where "pendingMap s3 = pendingMap s2 @ ps"
      by (auto simp: pending_tracks_def)
    ultimately show ?thesis by auto
  qed
qed

lemma read_closed_pending_tracks: "read_closed pending_tracks"
  unfolding read_closed_def
proof (intro conjI allI impI)
  fix s1 s2 s3
  assume "pending_tracks s1 s2" "pending_tracks s2 s3"
  then show "pending_tracks s1 s3" by (rule pending_tracks_trans)
qed (simp_all add: setAtomState_pending_tracks, simp_all add: pending_tracks_def)

subsection \<open>Where an exception comes from\<close>






lemma cached_stay_trace: "cached_stay s (s\<lparr>trace := t\<rparr>)"
  by (simp add: cached_stay_def)













subsection \<open>A plain read computes cells without a cached state only\<close>

lemma reads_uncached_refl: "reads_uncached s s"
  by (simp add: reads_uncached_def cached_stay_def)

lemma reads_uncached_trans:
  assumes a: "reads_uncached s1 s2" and b: "reads_uncached s2 s3"
  shows "reads_uncached s1 s3"
proof -
  from a obtain ev1 where k1: "cached_stay s1 s2" and t1: "trace s2 = trace s1 @ ev1"
    and u1: "\<forall>ev \<in> set ev1. \<exists>b. ev = ReadCalled b \<and> atomStateMap s1 b = None"
    by (auto simp: reads_uncached_def)
  from b obtain ev2 where k2: "cached_stay s2 s3" and t2: "trace s3 = trace s2 @ ev2"
    and u2: "\<forall>ev \<in> set ev2. \<exists>b. ev = ReadCalled b \<and> atomStateMap s2 b = None"
    by (auto simp: reads_uncached_def)
  have u2': "\<forall>ev \<in> set ev2. \<exists>b. ev = ReadCalled b \<and> atomStateMap s1 b = None"
  proof
    fix ev assume "ev \<in> set ev2"
    with u2 obtain b where "ev = ReadCalled b" "atomStateMap s2 b = None" by blast
    moreover from this k1 have "atomStateMap s1 b = None" by (auto simp: cached_stay_def)
    ultimately show "\<exists>b. ev = ReadCalled b \<and> atomStateMap s1 b = None" by blast
  qed
  have "cached_stay s1 s3" using k1 k2 by (auto simp: cached_stay_def)
  moreover have "trace s3 = trace s1 @ (ev1 @ ev2)" by (simp add: t1 t2)
  moreover have "\<forall>ev \<in> set (ev1 @ ev2). \<exists>b. ev = ReadCalled b \<and> atomStateMap s1 b = None"
    using u1 u2' by auto
  ultimately show ?thesis unfolding reads_uncached_def by blast
qed

lemma readAtomState_reads_uncached:
  "readAtomState n e a False s = Ok (st, s') \<Longrightarrow> reads_uncached s s'"
proof (induction n arbitrary: a s st s')
  case 0
  then show ?case by simp
next
  case (Suc n)
  show ?case
  proof (cases "getAtomState s a")
    case (Some p)
    with Suc.prems show ?thesis by (auto simp: reads_uncached_refl)
  next
    case None
    let ?rd = "\<lambda>b s1. readAtomState n e b False s1"
    let ?st = "s\<lparr>trace := trace s @ [ReadCalled a]\<rparr>"
    from None Suc.prems obtain x nd s1 where
      run: "run_read (getter ?rd e a) (read (atom_defs e a)) ([], ?st) = Ok (x, nd, s1)"
      and fin: "setAtomValue a x (Some nd) s1 = (st, s')"
      by (auto simp: computeAtomState_def bind_Ok_iff)
    have 1: "reads_uncached s ?st"
      using None by (simp add: reads_uncached_def cached_stay_def getAtomState_def)
    have g: "reads_uncached (snd \<sigma>) (snd \<sigma>')" if "getter ?rd e a b \<sigma> = Ok (y, \<sigma>')" for b \<sigma> y \<sigma>'
      using that Suc.IH
      by (cases \<sigma>; cases \<sigma>')
         (auto simp: getter_def bind_Ok_iff reads_uncached_refl split: if_splits option.splits)
    have "reads_uncached (snd ([]::next_deps, ?st)) (snd (nd, s1))"
      by (rule run_read_rel[where Q = "\<lambda>\<sigma> \<sigma>'. reads_uncached (snd \<sigma>) (snd \<sigma>')", OF _ _ _ run])
         (auto intro: reads_uncached_refl reads_uncached_trans g)
    then have 2: "reads_uncached ?st s1" by simp
    have 3: "reads_uncached s1 s'"
      using fin
      by (auto simp: setAtomValue_def Let_def reads_uncached_def cached_stay_def
          setAtomState_fields split: option.splits if_splits)
    from 1 2 3 show ?thesis by (blast intro: reads_uncached_trans)
  qed
qed

subsection \<open>The flush\<close>







subsection \<open>Mounting and unmounting\<close>







subsection \<open>Propagation of a write\<close>

lemma write_closed_same_mounted: "write_closed same_mounted"
  by (simp add: write_closed_def read_closed_def same_mounted_def setAtomState_def Let_def)





















subsection \<open>The bound on the depth\<close>

lemma below_refl: "below r r"
  by (simp add: below_def)

lemma below_Timeout: "below Timeout r"
  by (simp add: below_def)

lemma below_bind:
  assumes "below r r'" and "\<And>x. below (f x) (f' x)"
  shows "below (bind r f) (bind r' f')"
  using assms by (cases r; cases r') (auto simp: below_def)

lemma below_forEach:
  assumes "\<And>x s. below (f x s) (f' x s)"
  shows "below (forEach xs f s) (forEach xs f' s)"
proof (induction xs arbitrary: s)
  case Nil
  show ?case by (simp add: below_refl)
next
  case (Cons x xs)
  show ?case by (simp, rule below_bind) (rule assms, rule Cons.IH)
qed

lemma below_run_read:
  assumes "\<And>a s. below (g a s) (g' a s)"
  shows "below (run_read g p s) (run_read g' p s)"
proof (induction p arbitrary: s)
  case (Return x)
  show ?case by (simp add: below_refl)
next
  case (Get a k)
  show ?case
    by (simp, rule below_bind) (rule assms, auto intro: Get.IH)
qed

lemma below_run_write:
  assumes "\<And>a s. below (g a s) (g' a s)" and "\<And>a args s. below (st a args s) (st' a args s)"
  shows "below (run_write g st p s) (run_write g' st' p s)"
proof (induction p arbitrary: s)
  case (WReturn x)
  show ?case by (simp add: below_refl)
next
  case (WGet a k)
  show ?case
    by (simp, rule below_bind) (rule assms, auto intro: WGet.IH)
next
  case (WSet a args k)
  show ?case
    by (simp, rule below_bind) (rule assms, auto intro: WSet.IH)
qed

lemmas fuel_simps = readAtomState.simps recomputeDependents.simps writeAtomState.simps
  flushPending.simps writeAtom.simps mountAtom.simps

lemma below_getter:
  assumes "\<And>b s. below (rd b s) (rd' b s)"
  shows "below (getter rd e a b \<sigma>) (getter rd' e a b \<sigma>)"
  by (cases \<sigma>) (auto simp: getter_def below_refl intro!: below_bind assms)

lemma below_computeAtomState:
  assumes "\<And>b s. below (rd b s) (rd' b s)"
  shows "below (computeAtomState rd e a s) (computeAtomState rd' e a s)"
  unfolding computeAtomState_def
  by (intro below_bind below_run_read below_getter assms below_refl)

lemma readAtomState_Suc: "below (readAtomState n e a force s) (readAtomState (Suc n) e a force s)"
proof (induction n arbitrary: a force s)
  case 0
  show ?case by (simp add: below_Timeout)
next
  case (Suc n)
  have c: "below (computeAtomState (\<lambda>b s1. readAtomState n e b False s1) e a s)
              (computeAtomState (\<lambda>b s1. readAtomState (Suc n) e b False s1) e a s)"
    by (rule below_computeAtomState) (rule Suc.IH)
  show ?case
    apply (subst readAtomState.simps(2)[of n])
    apply (subst readAtomState.simps(2)[of "Suc n"])
    apply (cases "getAtomState s a")
     apply (simp only: option.case c)
    apply (cases force)
     apply (simp only: option.case not_True_eq_False if_False c)
    apply (simp add: below_refl)
    done
qed

lemma recomputeDependents_Suc:
  "below (recomputeDependents n e a s) (recomputeDependents (Suc n) e a s)"
proof (induction n arbitrary: a s)
  case 0
  show ?case by (simp add: below_Timeout)
next
  case (Suc n)
  show ?case
    apply (subst recomputeDependents.simps(2)[of n])
    apply (subst recomputeDependents.simps(2)[of "Suc n"])
    apply (rule below_forEach)
    apply (rule below_bind)
     apply (auto simp: below_refl simp del: fuel_simps
        intro!: below_bind readAtomState_Suc Suc.IH)
    done
qed

lemma below_setter:
  assumes "\<And>b args s. below (wr b args s) (wr' b args s)"
  shows "below (setter wr n e a b args s) (setter wr' (Suc n) e a b args s)"
  by (auto simp: setter_def Let_def below_refl simp del: fuel_simps split: prod.splits
      intro!: below_bind recomputeDependents_Suc assms)

lemma write_getter_Suc: "below (write_getter n e a s) (write_getter (Suc n) e a s)"
  unfolding write_getter_def by (intro below_bind readAtomState_Suc below_refl)

lemma writeAtomState_Suc:
  "below (writeAtomState n e a args s) (writeAtomState (Suc n) e a args s)"
proof (induction n arbitrary: a args s)
  case 0
  show ?case by (simp add: below_Timeout)
next
  case (Suc n)
  show ?case
    apply (subst writeAtomState.simps(2)[of n])
    apply (subst writeAtomState.simps(2)[of "Suc n"])
    apply (cases "write_fn (atom_defs e a)")
     apply (simp add: below_refl)
    apply (simp only: option.case)
    apply (rule below_run_write)
     apply (rule write_getter_Suc)
    apply (rule below_setter)
    apply (rule Suc.IH)
    done
qed

lemma readAtom_Suc: "below (readAtom n e a s) (readAtom (Suc n) e a s)"
  unfolding readAtom_def by (intro below_bind readAtomState_Suc below_refl)

lemma below_ignore_value: "below r r' \<Longrightarrow> below (ignore_value r) (ignore_value r')"
  unfolding ignore_value_def by (intro below_bind below_refl)

lemma flushPending_writeAtom_Suc:
  "below (flushPending n e s) (flushPending (Suc n) e s)
 \<and> below (writeAtom n e a args s) (writeAtom (Suc n) e a args s)"
proof (induction n arbitrary: s a args)
  case 0
  show ?case by (simp add: below_Timeout)
next
  case (Suc n)
  have act: "below (case act of DoGet a \<Rightarrow> ignore_value (readAtom n e a s3)
                     | DoSet a args \<Rightarrow> ignore_value (writeAtom n e a args s3))
                   (case act of DoGet a \<Rightarrow> ignore_value (readAtom (Suc n) e a s3)
                     | DoSet a args \<Rightarrow> ignore_value (writeAtom (Suc n) e a args s3))" for act s3
    using Suc.IH by (cases act) (auto simp del: fuel_simps intro: below_ignore_value readAtom_Suc)
  have f: "below (flushPending (Suc n) e s) (flushPending (Suc (Suc n)) e s)"
    apply (subst flushPending.simps(2)[of n])
    apply (subst flushPending.simps(2)[of "Suc n"])
    apply (cases "pendingMap s = []")
     apply (simp add: below_refl del: fuel_simps)
    apply (simp only: if_False)
    apply (rule below_bind)
     apply (rule below_forEach)
     apply (auto simp: below_refl simp del: fuel_simps intro!: below_forEach act)[1]
    apply (simp add: Suc.IH del: fuel_simps)
    done
  have w: "below (writeAtom (Suc n) e a args s) (writeAtom (Suc (Suc n)) e a args s)"
    apply (subst writeAtom.simps(2)[of n])
    apply (subst writeAtom.simps(2)[of "Suc n"])
    apply (rule below_bind)
     apply (rule writeAtomState_Suc)
    apply (auto intro!: below_bind below_refl simp: Suc.IH simp del: fuel_simps)
    done
  from f w show ?case by blast
qed

lemma mountAtom_Suc: "below (mountAtom n a i s) (mountAtom (Suc n) a i s)"
proof (induction n arbitrary: a i s)
  case 0
  show ?case by (simp add: below_Timeout)
next
  case (Suc n)
  show ?case
    apply (subst mountAtom.simps(2)[of n])
    apply (subst mountAtom.simps(2)[of "Suc n"])
    apply (rule below_bind)
     apply (rule below_forEach)
     apply (auto simp: below_refl simp del: fuel_simps split: option.splits intro: Suc.IH)
    done
qed


lemma below_trans: "below r1 r2 \<Longrightarrow> below r2 r3 \<Longrightarrow> below r1 r3"
  by (auto simp: below_def)

lemma subscribeAtom_Suc: "below (subscribeAtom n a li s) (subscribeAtom (Suc n) a li s)"
  unfolding subscribeAtom_def addAtom_def
  by (intro below_bind) (auto simp: below_refl simp del: fuel_simps split: option.splits
      intro: mountAtom_Suc)

text \<open>
  The bound on the depth is a bound only: a result other than \<open>Timeout\<close> stays the
  same under every larger bound.
\<close>

lemma bound_monotone:
  assumes "n \<le> m"
  shows "below (readAtom n e a s) (readAtom m e a s)
       \<and> below (writeAtom n e a args s) (writeAtom m e a args s)
       \<and> below (subscribeAtom n a li s) (subscribeAtom m a li s)"
  using assms
proof (induction m rule: dec_induct)
  case base
  show ?case by (simp add: below_refl)
next
  case (step m)
  then show ?case
    using readAtom_Suc[of m e a s] flushPending_writeAtom_Suc[of m e s a args]
      subscribeAtom_Suc[of m a li s]
    by (blast intro: below_trans)
qed

section \<open>The claims\<close>

text \<open>The definitions that an evaluation on a concrete store unfolds.\<close>

lemmas store_defs =
  createStore_def readAtom_def computeAtomState_def getter_def setAtomValue_def setAtomState_def
  getAtomState_def isEqualAtomValue_def returnAtomValue_def hasInitialValue_def
  subscribeAtom_def addAtom_def new_mounted_def set_add_def unmountAtom_def
  setter_def write_getter_def dependents_of_def should_notify_def mounted_listeners_def
  ignore_value_def atom_factory_def default_write_def Let_def

lemmas demo_defs = demo_env_def demo_store_def times2_def count_atom_def double_atom_def

lemmas switch_defs = switch_env_def switch_store_def other_atom_def flag_atom_def switch_atom_def
  unrelated_atom_def


lemmas passing_defs = passing_env_def passing_atom_def incr_def


subsection \<open>C1: the propagation of a write\<close>








subsection \<open>C2: what is mounted\<close>




subsection \<open>C3: the setter on the cell being written\<close>

text \<open>
  C3, as stated, has the setter apply an updater function to the current value. The
  setter of the store does not look at its argument: with a write function that passes
  its argument on, \<^verbatim>\<open>set(cell, f)\<close> installs the function \<open>f\<close> itself, not
  \<open>f\<close> of the current value 0.
\<close>

theorem setter_installs_function_unapplied:
  "(case bind (readAtom 1 passing_env passing_atom createStore) (\<lambda>(cur, s0).
         bind (writeAtom 3 passing_env passing_atom [Fn 1] s0) (\<lambda>(r, s1).
         Ok (cur, atomStateMap s1 passing_atom))) of
      Ok (cur, st) \<Rightarrow>
        cur = Num 0 \<and> incr cur = Num 1 \<and> map_option val_of st = Some (Fn 1)
    | _ \<Rightarrow> False)"
  by (simp add: store_defs passing_defs eval_nat_numeral)

text \<open>
  C3, amended. The setter handed to the write function of cell \<open>a\<close>, called on
  \<open>a\<close> itself, installs its first argument as it is given (a fresh state with no
  dependencies) and returns \<^verbatim>\<open>undefined\<close>; it runs \<open>recomputeDependents\<close> for
  \<open>a\<close> iff \<open>a\<close> had no cached state or the cached value is not
  \<^verbatim>\<open>Object.is\<close>-equal to the argument, and otherwise leaves the store as it is.
  Applying an updater is the work of the default write function that the factory gives
  a cell built from an initial value: it reads the cell's current value through the
  getter, applies the function and calls the setter with the result; any other
  argument it passes on.
\<close>

theorem setter_installs_its_argument:
  "setter wr n e a a args s =
     (if \<exists>p. getAtomState s a = Some p \<and> val_of p = arg0 args then Ok (Undefined, s)
      else bind (recomputeDependents n e a (setAtomState a (AtomState [] (arg0 args)) s))
             (\<lambda>s2. Ok (Undefined, s2)))
   \<and> map_option val_of (atomStateMap (setAtomState a (AtomState [] (arg0 args)) s) a)
       = Some (arg0 args)
   \<and> (write_fn (atom_defs e a) = Some (default_write fns a) \<longrightarrow>
        writeAtomState (Suc n) e a (Fn f # rest) s =
          bind (write_getter n e a s) (\<lambda>(prev, s1).
            setter (\<lambda>b args' s'. writeAtomState n e b args' s') n e a a [fns f prev] s1))
   \<and> (write_fn (atom_defs e a) = Some (default_write fns a) \<and> (\<forall>f. arg0 args \<noteq> Fn f) \<longrightarrow>
        writeAtomState (Suc n) e a args s =
          setter (\<lambda>b args' s'. writeAtomState n e b args' s') n e a a [arg0 args] s)"
proof (intro conjI impI)
  show "setter wr n e a a args s =
     (if \<exists>p. getAtomState s a = Some p \<and> val_of p = arg0 args then Ok (Undefined, s)
      else bind (recomputeDependents n e a (setAtomState a (AtomState [] (arg0 args)) s))
             (\<lambda>s2. Ok (Undefined, s2)))"
    by (cases "getAtomState s a")
       (auto simp: setter_def setAtomValue_def isEqualAtomValue_def Let_def)
next
  show "map_option val_of (atomStateMap (setAtomState a (AtomState [] (arg0 args)) s) a)
       = Some (arg0 args)"
    by (simp add: setAtomState_fields)
next
  assume "write_fn (atom_defs e a) = Some (default_write fns a)"
  then show "writeAtomState (Suc n) e a (Fn f # rest) s =
          bind (write_getter n e a s) (\<lambda>(prev, s1).
            setter (\<lambda>b args' s'. writeAtomState n e b args' s') n e a a [fns f prev] s1)"
    by (simp add: default_write_def bind_Ok_right)
next
  assume "write_fn (atom_defs e a) = Some (default_write fns a) \<and> (\<forall>f. arg0 args \<noteq> Fn f)"
  then show "writeAtomState (Suc n) e a args s =
          setter (\<lambda>b args' s'. writeAtomState n e b args' s') n e a a [arg0 args] s"
    by (cases "arg0 args") (simp_all add: default_write_def bind_Ok_right)
qed

theorem setter_installs_its_argument_witness:
  "(\<exists>s1. writeAtomState 3 passing_env count_atom [Fn 1] createStore = Ok (Undefined, s1)
         \<and> map_option val_of (atomStateMap s1 count_atom) = Some (Num 1))
   \<and> (\<exists>s1. writeAtomState 3 passing_env count_atom [Num 5] createStore = Ok (Undefined, s1)
         \<and> map_option val_of (atomStateMap s1 count_atom) = Some (Num 5))"
proof -
  have w: "write_fn (atom_defs passing_env count_atom) = Some (default_write (\<lambda>f. incr) count_atom)"
    by (simp add: passing_defs count_atom_def atom_factory_def)
  have n: "\<forall>f. arg0 [Num 5] \<noteq> Fn f" by simp
  note c = setter_installs_its_argument[where e = passing_env and a = count_atom and fns = "\<lambda>f. incr" and n = 2
      and s = createStore]
  from c[where f = 1 and rest = "[]", THEN conjunct2, THEN conjunct2, THEN conjunct1] w
  have "writeAtomState (Suc 2) passing_env count_atom [Fn 1] createStore =
          bind (write_getter 2 passing_env count_atom createStore) (\<lambda>(prev, s1).
            setter (\<lambda>b args' s'. writeAtomState 2 passing_env b args' s') 2 passing_env
              count_atom count_atom [incr prev] s1)"
    by blast
  then have A: "\<exists>s1. writeAtomState 3 passing_env count_atom [Fn 1] createStore = Ok (Undefined, s1)
         \<and> map_option val_of (atomStateMap s1 count_atom) = Some (Num 1)"
    by (simp add: store_defs passing_defs count_atom_def eval_nat_numeral)
  from c[where args = "[Num 5]", THEN conjunct2, THEN conjunct2, THEN conjunct2] w n
  have "writeAtomState (Suc 2) passing_env count_atom [Num 5] createStore =
          setter (\<lambda>b args' s'. writeAtomState 2 passing_env b args' s') 2 passing_env
            count_atom count_atom [arg0 [Num 5]] createStore"
    by blast
  then have B: "\<exists>s1. writeAtomState 3 passing_env count_atom [Num 5] createStore = Ok (Undefined, s1)
         \<and> map_option val_of (atomStateMap s1 count_atom) = Some (Num 5)"
    by (simp add: store_defs passing_defs count_atom_def eval_nat_numeral)
  from A B show ?thesis by (rule conjI)
qed

subsection \<open>C4: the scenario of count and double\<close>

text \<open>
  C4, as stated: on a fresh store, subscribe a listener to \<open>double\<close>, call
  \<^verbatim>\<open>set(count, 5)\<close>; then \<^verbatim>\<open>get(double)\<close> is 10 and the listener has fired
  once. The code returns 10, but the listener has not fired: \<open>double\<close> was mounted
  before it was ever read, so it had no cached state, \<open>mountAtom\<close> found no dependency,
  \<open>count\<close> got no mount record, and \<open>recomputeDependents\<close> had nothing to recompute.
\<close>

theorem scenario_subscribe_first_listener_silent:
  "(case bind (subscribeAtom 2 double_atom 7 createStore) (\<lambda>s1.
         bind (writeAtom 5 demo_env count_atom [Num 5] s1) (\<lambda>(r, s2).
         readAtom 2 demo_env double_atom s2)) of
      Ok (x, s3) \<Rightarrow> x = Num 10 \<and> count_list (trace s3) (ListenerCalled 7) = 0
    | _ \<Rightarrow> False)"
  by (simp add: store_defs demo_defs eval_nat_numeral)

text \<open>
  C4, amended: when \<open>double\<close> has been read once before the listener is subscribed
  (as the hook \<^verbatim>\<open>useAtomValue\<close> does), then after \<^verbatim>\<open>set(count, 5)\<close> the call
  \<^verbatim>\<open>get(double)\<close> returns 10 and the listener of \<open>double\<close> has fired exactly
  once. This holds for every listener and every bound on the depth that is not too small.
\<close>

theorem scenario_read_subscribe_set:
  "(case bind (readAtom (Suc (Suc k1)) demo_env double_atom createStore) (\<lambda>(r0, s0).
         bind (subscribeAtom (Suc (Suc k2)) double_atom li s0) (\<lambda>s1.
         bind (writeAtom (Suc (Suc (Suc (Suc (Suc k3))))) demo_env count_atom [Num 5] s1) (\<lambda>(r, s2).
         readAtom (Suc k4) demo_env double_atom s2))) of
      Ok (x, s3) \<Rightarrow> x = Num 10 \<and> count_list (trace s3) (ListenerCalled li) = 1
    | _ \<Rightarrow> False)"
  by (simp add: store_defs demo_defs)

subsection \<open>C5: a recomputation that gives the same value\<close>

lemma setAtomValue_same:
  "getAtomState s a = Some p \<Longrightarrow> val_of p = x \<Longrightarrow> setAtomValue a x nd s = (p, s)"
  by (simp add: setAtomValue_def isEqualAtomValue_def)

text \<open>
  C5: when a recomputation of cell \<open>a\<close> (its read function run against the store,
  leaving the store \<open>s1\<close>) produces a value \<open>x\<close> that is \<^verbatim>\<open>Object.is\<close>-equal to
  the value of the state \<open>p\<close> cached for \<open>a\<close>, then \<open>setAtomValue\<close> returns \<open>p\<close>
  and leaves the store as it is: the state table still holds \<open>p\<close> (with the old
  dependencies), the pending set is the same, and so is the trace of listener calls.
  The forced \<open>readAtomState\<close> as a whole therefore returns \<open>p\<close> and the store \<open>s1\<close>.
\<close>

theorem equal_value_keeps_cached_state:
  assumes "getAtomState s1 a = Some p" and "val_of p = x"
  shows "setAtomValue a x nd s1 = (p, s1)
       \<and> (run_read (getter (\<lambda>b s'. readAtomState n e b False s') e a) (read (atom_defs e a))
             ([], s\<lparr>trace := trace s @ [ReadCalled a]\<rparr>) = Ok (x, nd', s1)
            \<longrightarrow> readAtomState (Suc n) e a True s = Ok (p, s1))"
  using assms
  by (auto simp: setAtomValue_same computeAtomState_def split: option.splits)

theorem equal_value_keeps_cached_state_witness:
  "setAtomValue double_atom (Num 10) (Some [(count_atom, Some (AtomState [] (Num 5)))])
       (demo_store\<lparr>trace := [ReadCalled double_atom]\<rparr>)
     = (AtomState [(count_atom, None)] (Num 10), demo_store\<lparr>trace := [ReadCalled double_atom]\<rparr>)
   \<and> readAtomState (Suc (Suc 0)) demo_env double_atom True demo_store
     = Ok (AtomState [(count_atom, None)] (Num 10), demo_store\<lparr>trace := [ReadCalled double_atom]\<rparr>)"
proof -
  let ?s1 = "demo_store\<lparr>trace := [ReadCalled double_atom]\<rparr>"
  let ?p = "AtomState [(count_atom, None)] (Num 10)"
  have h1: "getAtomState ?s1 double_atom = Some ?p"
    by (simp add: getAtomState_def demo_defs)
  have h2: "val_of ?p = Num 10" by simp
  have h3: "run_read (getter (\<lambda>b s'. readAtomState (Suc 0) demo_env b False s') demo_env double_atom)
              (read (atom_defs demo_env double_atom))
              ([], demo_store\<lparr>trace := trace demo_store @ [ReadCalled double_atom]\<rparr>)
            = Ok (Num 10, [(count_atom, Some (AtomState [] (Num 5)))], ?s1)"
    by (simp add: store_defs demo_defs)
  from equal_value_keeps_cached_state[OF h1 h2,
      of "Some [(count_atom, Some (AtomState [] (Num 5)))]" "Suc 0" demo_env demo_store
         "[(count_atom, Some (AtomState [] (Num 5)))]"] h3
  show ?thesis by blast
qed

subsection \<open>C6: a cached cell is returned as it is; read functions run on demand\<close>

text \<open>
  C6: for a cell with a cached state, \<^verbatim>\<open>get\<close> returns the cached value and leaves
  the whole store, the trace of read-function calls included, as it was: no read
  function runs and no dependency is looked at. Any \<^verbatim>\<open>get\<close> that returns has
  called nothing but read functions, and only those of cells that had no cached state
  when it began. A new store has called no read function, and neither subscribing
  (mounting) nor unsubscribing calls one or touches the state table: read functions
  run inside \<^verbatim>\<open>get\<close> and \<^verbatim>\<open>set\<close> only.
\<close>

theorem get_cached_is_plain_lookup:
  "(getAtomState s c = Some st \<longrightarrow> readAtom (Suc n) e c s = Ok (val_of st, s))
   \<and> (readAtom k e c s = Ok (x, s1) \<longrightarrow>
        (\<exists>evs. trace s1 = trace s @ evs
           \<and> (\<forall>ev \<in> set evs. \<exists>b. ev = ReadCalled b \<and> getAtomState s b = None)))
   \<and> trace createStore = [] \<and> atomStateMap createStore = Map.empty
   \<and> (subscribeAtom m a li s = Ok s' \<longrightarrow> trace s' = trace s \<and> atomStateMap s' = atomStateMap s)
   \<and> trace (unmountAtom a s) = trace s \<and> atomStateMap (unmountAtom a s) = atomStateMap s"
proof -
  have "\<exists>evs. trace s1 = trace s @ evs
           \<and> (\<forall>ev \<in> set evs. \<exists>b. ev = ReadCalled b \<and> getAtomState s b = None)"
    if "readAtom k e c s = Ok (x, s1)"
  proof -
    from that obtain st1 where "readAtomState k e c False s = Ok (st1, s1)"
      by (auto simp: readAtom_def bind_Ok_iff)
    from readAtomState_reads_uncached[OF this] show ?thesis
      by (simp add: reads_uncached_def getAtomState_def)
  qed
  then show ?thesis
    using mount_only_fields[OF unmountAtom_mount_only, of a s]
      mount_only_fields[OF subscribeAtom_mount_only, of m a li s s']
    by (simp add: readAtom_def returnAtomValue_def createStore_def)
qed

theorem get_cached_is_plain_lookup_witness:
  "readAtom (Suc 0) demo_env double_atom demo_store = Ok (Num 10, demo_store)
   \<and> (\<exists>s1. readAtom 3 demo_env double_atom createStore = Ok (Num 0, s1)
          \<and> trace s1 = [ReadCalled double_atom, ReadCalled count_atom]
          \<and> (\<forall>ev \<in> set (trace s1). \<exists>b. ev = ReadCalled b \<and> getAtomState createStore b = None))
   \<and> (\<exists>s'. subscribeAtom (Suc (Suc 0)) double_atom 7 demo_store = Ok s'
          \<and> trace s' = trace demo_store \<and> atomStateMap s' = atomStateMap demo_store)"
proof -
  have h1: "getAtomState demo_store double_atom = Some (AtomState [(count_atom, None)] (Num 10))"
    by (simp add: getAtomState_def demo_defs)
  obtain s' where h2: "subscribeAtom (Suc (Suc 0)) double_atom 7 demo_store = Ok s'"
    by (simp add: store_defs demo_defs)
  have "\<exists>s1. readAtom 3 demo_env double_atom createStore = Ok (Num 0, s1)
          \<and> trace s1 = [ReadCalled double_atom, ReadCalled count_atom]"
    by (simp add: store_defs demo_defs eval_nat_numeral)
  then obtain s1 where h3: "readAtom 3 demo_env double_atom createStore = Ok (Num 0, s1)"
    and h4: "trace s1 = [ReadCalled double_atom, ReadCalled count_atom]" by blast
  have h5: "trace createStore = []" by (simp add: createStore_def)
  from get_cached_is_plain_lookup[where s = demo_store and c = double_atom
      and st = "AtomState [(count_atom, None)] (Num 10)" and n = 0 and e = demo_env
      and m = "Suc (Suc 0)" and a = double_atom and li = 7 and s' = s']
    get_cached_is_plain_lookup[where s = createStore and c = double_atom and k = 3
      and e = demo_env and x = "Num 0" and ?s1.0 = s1]
    h1 h2 h3 h4 h5
  show ?thesis by auto
qed

subsection \<open>C7: the flush\<close>




subsection \<open>C8: the error of a self-read without a value\<close>



subsection \<open>C9: a get enqueues pending cells\<close>

text \<open>
  C9: a \<^verbatim>\<open>get\<close> changes the store. It only appends to the pending set, and
  every cell whose entry in the state table it has changed (a first read, or a
  recomputation with a different value) is in the pending set afterwards. Subscribing
  and unsubscribing leave the pending set alone, and \<^verbatim>\<open>get\<close> does not flush, so
  the entries wait for the next \<^verbatim>\<open>set\<close>. Last conjunct: \<open>switch\<close> is subscribed
  and then read; the read enqueues it and calls no listener; a later \<^verbatim>\<open>set\<close> on
  a cell that \<open>switch\<close> does not depend on leaves the state of \<open>switch\<close> as it
  is and calls its listener.
\<close>

theorem get_enqueues_pending:
  "(readAtom n e a s = Ok (x, s') \<longrightarrow>
      (\<exists>ps. pendingMap s' = pendingMap s @ ps)
      \<and> (\<forall>b. atomStateMap s' b \<noteq> atomStateMap s b \<longrightarrow> b \<in> fst ` set (pendingMap s')))
   \<and> (subscribeAtom m a li s = Ok s1 \<longrightarrow> pendingMap s1 = pendingMap s)
   \<and> pendingMap (unmountAtom a s) = pendingMap s
   \<and> (case bind (subscribeAtom 1 switch_atom 7 createStore) (\<lambda>s1.
              bind (readAtom 2 switch_env switch_atom s1) (\<lambda>(x, s2).
              bind (writeAtom 4 switch_env unrelated_atom [Num 1] s2) (\<lambda>(r, s3). Ok (s2, s3)))) of
         Ok (s2, s3) \<Rightarrow>
           switch_atom \<in> fst ` set (pendingMap s2)
           \<and> count_list (trace s2) (ListenerCalled 7) = 0
           \<and> atomStateMap s3 switch_atom = atomStateMap s2 switch_atom
           \<and> count_list (trace s3) (ListenerCalled 7) = 1
       | _ \<Rightarrow> False)"
proof -
  have 1: "readAtom n e a s = Ok (x, s') \<longrightarrow>
      (\<exists>ps. pendingMap s' = pendingMap s @ ps)
      \<and> (\<forall>b. atomStateMap s' b \<noteq> atomStateMap s b \<longrightarrow> b \<in> fst ` set (pendingMap s'))"
    using readAtom_rel[OF read_closed_pending_tracks, of n e a s x s']
    by (simp add: pending_tracks_def)
  have 2: "subscribeAtom m a li s = Ok s1 \<longrightarrow> pendingMap s1 = pendingMap s"
    using mount_only_fields[OF subscribeAtom_mount_only, of m a li s s1] by simp
  have 3: "pendingMap (unmountAtom a s) = pendingMap s"
    using mount_only_fields[OF unmountAtom_mount_only, of a s] by simp
  have 4: "(case bind (subscribeAtom 1 switch_atom 7 createStore) (\<lambda>s1.
              bind (readAtom 2 switch_env switch_atom s1) (\<lambda>(x, s2).
              bind (writeAtom 4 switch_env unrelated_atom [Num 1] s2) (\<lambda>(r, s3). Ok (s2, s3)))) of
         Ok (s2, s3) \<Rightarrow>
           switch_atom \<in> fst ` set (pendingMap s2)
           \<and> count_list (trace s2) (ListenerCalled 7) = 0
           \<and> atomStateMap s3 switch_atom = atomStateMap s2 switch_atom
           \<and> count_list (trace s3) (ListenerCalled 7) = 1
       | _ \<Rightarrow> False)"
    by (simp add: store_defs switch_defs eval_nat_numeral)
  from 1 2 3 4 show ?thesis by blast
qed

theorem get_enqueues_pending_witness:
  "(\<exists>x s'. readAtom 2 switch_env switch_atom createStore = Ok (x, s')
       \<and> map fst (pendingMap s') = [flag_atom, other_atom, switch_atom]
       \<and> (\<forall>b. atomStateMap s' b \<noteq> atomStateMap createStore b \<longrightarrow> b \<in> fst ` set (pendingMap s')))
   \<and> (\<exists>s1. subscribeAtom 1 switch_atom 7 createStore = Ok s1 \<and> pendingMap s1 = pendingMap createStore)"
proof -
  obtain x s' where h1: "readAtom 2 switch_env switch_atom createStore = Ok (x, s')"
    and p: "map fst (pendingMap s') = [flag_atom, other_atom, switch_atom]"
    by (simp add: store_defs switch_defs eval_nat_numeral)
  obtain s1 where h2: "subscribeAtom 1 switch_atom 7 createStore = Ok s1"
    by (simp add: store_defs switch_defs)
  note c = get_enqueues_pending[of 2 switch_env switch_atom createStore x s' 1 7 s1]
  from c[THEN conjunct1] h1
  have a: "\<forall>b. atomStateMap s' b \<noteq> atomStateMap createStore b \<longrightarrow> b \<in> fst ` set (pendingMap s')"
    by blast
  from c[THEN conjunct2, THEN conjunct1] h2
  have b: "pendingMap s1 = pendingMap createStore" by blast
  from h1 p a have A: "\<exists>x s'. readAtom 2 switch_env switch_atom createStore = Ok (x, s')
       \<and> map fst (pendingMap s') = [flag_atom, other_atom, switch_atom]
       \<and> (\<forall>b. atomStateMap s' b \<noteq> atomStateMap createStore b \<longrightarrow> b \<in> fst ` set (pendingMap s'))"
    by (intro exI conjI)
  from h2 b have B: "\<exists>s1. subscribeAtom 1 switch_atom 7 createStore = Ok s1 \<and> pendingMap s1 = pendingMap createStore"
    by (intro exI conjI)
  from A B show ?thesis by (rule conjI)
qed

subsection \<open>C10: recomputation never writes to the mount table\<close>

text \<open>
  C10: a \<^verbatim>\<open>get\<close>, a forced recomputation, the propagation
  \<open>recomputeDependents\<close> and a whole \<^verbatim>\<open>set\<close> with its flush leave the mount
  table, and so every dependents set, exactly as it was; only \<open>mountAtom\<close> and
  \<open>unmountAtom\<close> write to it. In the instance below the recomputation of \<open>switch\<close>
  records the dependencies \<open>[flag]\<close> where \<open>[flag, other]\<close> were recorded before,
  and \<open>switch\<close> stays in the dependents set of \<open>other\<close>.
\<close>

theorem recomputation_keeps_mount_table:
  "(readAtom n e a s = Ok (x, s1) \<longrightarrow> mountedMap s1 = mountedMap s)
 \<and> (readAtomState n e a True s = Ok (st, s2) \<longrightarrow> mountedMap s2 = mountedMap s)
 \<and> (recomputeDependents n e a s = Ok s3 \<longrightarrow> mountedMap s3 = mountedMap s)
 \<and> (writeAtom n e a args s = Ok (r, s4) \<longrightarrow> mountedMap s4 = mountedMap s)"
  using readAtom_rel[OF write_closedD(1)[OF write_closed_same_mounted], of n e a s x s1]
    readAtomState_rel[OF write_closedD(1)[OF write_closed_same_mounted], of n e a True s st s2]
    recomputeDependents_rel[OF write_closedD(1)[OF write_closed_same_mounted], of n e a s s3]
    flushPending_writeAtom_rel[OF write_closed_same_mounted, of n e s s4 a args r]
  by (simp add: same_mounted_def)

theorem recomputation_keeps_mount_table_witness:
  "(\<exists>x s1. readAtom 1 switch_env switch_atom switch_store = Ok (x, s1) \<and> mountedMap s1 = mountedMap switch_store)
 \<and> (\<exists>st s2. readAtomState 2 switch_env switch_atom True switch_store = Ok (st, s2) \<and> mountedMap s2 = mountedMap switch_store)
 \<and> (\<exists>s3. recomputeDependents 3 switch_env flag_atom switch_store = Ok s3 \<and> mountedMap s3 = mountedMap switch_store)
 \<and> (\<exists>r s4. writeAtom 5 switch_env flag_atom [Num 1] switch_store = Ok (r, s4)
        \<and> mountedMap s4 = mountedMap switch_store
        \<and> map_option (map fst \<circ> deps) (atomStateMap switch_store switch_atom) = Some [flag_atom, other_atom]
        \<and> map_option (map fst \<circ> deps) (atomStateMap s4 switch_atom) = Some [flag_atom]
        \<and> dependents_of s4 other_atom = [switch_atom])"
proof -
  obtain x s1 where h1: "readAtom 1 switch_env switch_atom switch_store = Ok (x, s1)"
    by (simp add: store_defs switch_defs)
  obtain st s2 where h2: "readAtomState 2 switch_env switch_atom True switch_store = Ok (st, s2)"
    by (simp add: store_defs switch_defs eval_nat_numeral)
  obtain s3 where h3: "recomputeDependents 3 switch_env flag_atom switch_store = Ok s3"
    by (simp add: store_defs switch_defs eval_nat_numeral)
  obtain r s4 where h4: "writeAtom 5 switch_env flag_atom [Num 1] switch_store = Ok (r, s4)"
    and d4: "map_option (map fst \<circ> deps) (atomStateMap s4 switch_atom) = Some [flag_atom]"
    by (simp add: store_defs switch_defs eval_nat_numeral)
  have d0: "map_option (map fst \<circ> deps) (atomStateMap switch_store switch_atom) = Some [flag_atom, other_atom]"
    by (simp add: switch_defs)
  have m: "dependents_of switch_store other_atom = [switch_atom]"
    by (simp add: dependents_of_def switch_defs)
  from recomputation_keeps_mount_table[of 1 switch_env switch_atom switch_store x s1] h1
  have c1: "mountedMap s1 = mountedMap switch_store" by blast
  from recomputation_keeps_mount_table[of 2 switch_env switch_atom switch_store _ _ st s2] h2
  have c2: "mountedMap s2 = mountedMap switch_store" by blast
  from recomputation_keeps_mount_table[of 3 switch_env flag_atom switch_store _ _ _ _ s3] h3
  have c3: "mountedMap s3 = mountedMap switch_store" by blast
  from recomputation_keeps_mount_table[of 5 switch_env flag_atom switch_store _ _ _ _ _ "[Num 1]" r s4] h4
  have c4: "mountedMap s4 = mountedMap switch_store" by blast
  from m c4 have m4: "dependents_of s4 other_atom = [switch_atom]"
    by (simp add: dependents_of_def)
  from h1 h2 h3 h4 c1 c2 c3 c4 d0 d4 m4 show ?thesis by blast
qed

end
